theory Spec2Isabelle
  imports Main "HOL-Library.Multiset"
begin

section \<open>Pieces and boards (solution.py, classes Piece and Board)\<close>

definition char_goal :: char where "char_goal = CHR ''1''"
definition char_single :: char where "char_single = CHR ''2''"
definition char_empty :: char where "char_empty = CHR ''.''"

text \<open>
  A \<open>Piece\<close> object: the two flags, the top-left corner and the orientation, which is
  \<open>'h'\<close>, \<open>'v'\<close> or \<open>None\<close>.
\<close>

record Piece =
  is_goal :: bool
  is_single :: bool
  coord_x :: int
  coord_y :: int
  orientation :: "string option"

text \<open>
  The only exception the modelled code can raise is the \<open>IndexError\<close> of a list
  subscript out of range.
\<close>

datatype error = IndexError

definition bind_err :: "error + 'a \<Rightarrow> ('a \<Rightarrow> error + 'b) \<Rightarrow> error + 'b" where
  "bind_err m k = (case m of Inl e \<Rightarrow> Inl e | Inr v \<Rightarrow> k v)"

text \<open>
  Python list subscripts: an index \<open>i\<close> with \<open>0 \<le> i < n\<close> is itself, one with
  \<open>-n \<le> i < 0\<close> counts from the end, anything else raises \<open>IndexError\<close>.
\<close>

definition py_index :: "nat \<Rightarrow> int \<Rightarrow> nat option" where
  "py_index n i =
     (if 0 \<le> i \<and> i < int n then Some (nat i)
      else if - int n \<le> i \<and> i < 0 then Some (nat (int n + i))
      else None)"

text \<open>The assignment \<open>grid[y][x] = c\<close>.\<close>

definition set_cell :: "char list list \<Rightarrow> int \<Rightarrow> int \<Rightarrow> char \<Rightarrow> error + char list list" where
  "set_cell g y x c =
     (case py_index (length g) y of
        None \<Rightarrow> Inl IndexError
      | Some r \<Rightarrow>
          (case py_index (length (g ! r)) x of
             None \<Rightarrow> Inl IndexError
           | Some k \<Rightarrow> Inr (g[r := (g ! r)[k := c]])))"

record Board =
  width :: int
  height :: int
  pieces :: "Piece list"
  grid :: "char list list"
  goal_piece_coordinates :: "int list"

text \<open>
  One iteration of the second loop of \<open>Board.__construct_grid\<close>: the state is the grid
  and the list \<open>goal_piece_coordinates\<close>.
\<close>

definition place_piece ::
  "Piece \<Rightarrow> char list list \<times> int list \<Rightarrow> error + (char list list \<times> int list)" where
  "place_piece piece st =
     (case st of (g, gpc) \<Rightarrow>
        if is_goal piece then
          (let gpc' = (gpc[0 := coord_x piece])[1 := coord_y piece] in
           bind_err (set_cell g (coord_y piece) (coord_x piece) char_goal) (\<lambda>g1.
           bind_err (set_cell g1 (coord_y piece) (coord_x piece + 1) char_goal) (\<lambda>g2.
           bind_err (set_cell g2 (coord_y piece + 1) (coord_x piece) char_goal) (\<lambda>g3.
           bind_err (set_cell g3 (coord_y piece + 1) (coord_x piece + 1) char_goal) (\<lambda>g4.
           Inr (g4, gpc'))))))
        else if is_single piece then
          bind_err (set_cell g (coord_y piece) (coord_x piece) char_single) (\<lambda>g1.
          Inr (g1, gpc))
        else if orientation piece = Some ''h'' then
          bind_err (set_cell g (coord_y piece) (coord_x piece) (CHR ''<'')) (\<lambda>g1.
          bind_err (set_cell g1 (coord_y piece) (coord_x piece + 1) (CHR ''>'')) (\<lambda>g2.
          Inr (g2, gpc)))
        else if orientation piece = Some ''v'' then
          bind_err (set_cell g (coord_y piece) (coord_x piece) (CHR ''^'')) (\<lambda>g1.
          bind_err (set_cell g1 (coord_y piece + 1) (coord_x piece) (CHR ''v'')) (\<lambda>g2.
          Inr (g2, gpc)))
        else Inr (g, gpc))"

fun place_pieces ::
  "Piece list \<Rightarrow> char list list \<times> int list \<Rightarrow> error + (char list list \<times> int list)" where
  "place_pieces [] st = Inr st"
| "place_pieces (p # ps) st = bind_err (place_piece p st) (place_pieces ps)"

text \<open>The first loop of \<open>__construct_grid\<close>: \<open>height\<close> rows of \<open>width\<close> dots.\<close>

definition empty_grid :: "nat \<Rightarrow> nat \<Rightarrow> char list list" where
  "empty_grid h w = replicate h (replicate w (CHR ''.''))"

definition construct_grid :: "Piece list \<Rightarrow> error + (char list list \<times> int list)" where
  "construct_grid ps = place_pieces ps (empty_grid 5 4, [0, 0])"

text \<open>\<open>Board.__init__\<close>: no check of the piece list, only the grid is built from it.\<close>

definition Board_init :: "Piece list \<Rightarrow> error + Board" where
  "Board_init ps =
     bind_err (construct_grid ps) (\<lambda>(g, gpc).
       Inr \<lparr>width = 4, height = 5, pieces = ps, grid = g, goal_piece_coordinates = gpc\<rparr>)"

section \<open>Search states\<close>

text \<open>
  \<open>str(board.grid)\<close>: the grid is a list of lists of one-character strings, printed as
  \<open>[['.', '1'], ['2', '.']]\<close>. The cells only ever hold the seven characters that
  \<open>__construct_grid\<close> writes, which \<open>repr\<close> prints between single quotes unescaped.
\<close>

fun py_join :: "string \<Rightarrow> string list \<Rightarrow> string" where
  "py_join sep [] = []"
| "py_join sep [x] = x"
| "py_join sep (x # y # ys) = x @ sep @ py_join sep (y # ys)"

definition repr_cell :: "char \<Rightarrow> string" where
  "repr_cell c = [CHR 0x27, c, CHR 0x27]"

definition str_row :: "char list \<Rightarrow> string" where
  "str_row r = ''['' @ py_join '', '' (map repr_cell r) @ '']''"

definition str_grid :: "char list list \<Rightarrow> string" where
  "str_grid g = ''['' @ py_join '', '' (map str_row g) @ '']''"

text \<open>
  A \<open>State\<close> object. The field \<open>id\<close> is named \<open>sid\<close> here and \<open>f\<close> is \<open>fval\<close>.
  The built-in \<open>hash\<close> of Python is not part of the program: it is a parameter
  \<open>hash :: string \<Rightarrow> int\<close> of everything that builds a state.
\<close>

datatype State =
  State (board: Board) (fval: int) (depth: int) (parent: "State option") (sid: int)

definition State_init :: "(string \<Rightarrow> int) \<Rightarrow> Board \<Rightarrow> int \<Rightarrow> int \<Rightarrow> State option \<Rightarrow> State" where
  "State_init hash b fv d p = State b fv d p (hash (str_grid (grid b)))"

text \<open>\<open>State.__lt__\<close>, the order of the heap.\<close>

definition state_lt :: "State \<Rightarrow> State \<Rightarrow> bool" where
  "state_lt s other = (if fval s = fval other then sid s < sid other else fval s < fval other)"

section \<open>Heuristic, goal test and move generation\<close>

definition manhattan_distance :: "Board \<Rightarrow> int" where
  "manhattan_distance b =
     (let position_1_x = goal_piece_coordinates b ! 0;
          position_1_y = goal_piece_coordinates b ! 1;
          position_end_x = 1;
          position_end_y = 3
      in \<bar>position_1_x - position_end_x\<bar> + \<bar>position_1_y - position_end_y\<bar>)"

definition goal_test :: "State \<Rightarrow> bool" where
  "goal_test state = (goal_piece_coordinates (board state) = [1, 3])"

text \<open>
  \<open>check_valid_spot\<close> returns \<open>True\<close>, \<open>False\<close> or (in range, cell taken) \<open>None\<close>; its
  callers only test the truth value, and \<open>None\<close> is false. The subscripts are read
  only inside the range test, so they are in range on every grid that
  \<open>__construct_grid\<close> built.
\<close>

definition check_valid_spot :: "State \<Rightarrow> int \<Rightarrow> int \<Rightarrow> bool" where
  "check_valid_spot state x y =
     (if 0 \<le> x \<and> x < width (board state) \<and> 0 \<le> y \<and> y < height (board state)
      then grid (board state) ! nat y ! nat x = char_empty
      else False)"

text \<open>The four strings \<open>"up"\<close>, \<open>"down"\<close>, \<open>"left"\<close>, \<open>"right"\<close> that \<open>get_new_state\<close> is called with.\<close>

datatype direction = Up | Down | Left | Right

definition move_piece :: "Piece \<Rightarrow> direction \<Rightarrow> Piece" where
  "move_piece piece d =
     (case d of
        Left \<Rightarrow> piece\<lparr>coord_x := coord_x piece - 1\<rparr>
      | Right \<Rightarrow> piece\<lparr>coord_x := coord_x piece + 1\<rparr>
      | Up \<Rightarrow> piece\<lparr>coord_y := coord_y piece - 1\<rparr>
      | Down \<Rightarrow> piece\<lparr>coord_y := coord_y piece + 1\<rparr>)"

text \<open>
  The loop of \<open>get_new_state\<close> over the copied piece list: the first piece with the given
  corner is moved, then the loop breaks.
\<close>

fun move_first :: "Piece list \<Rightarrow> int \<Rightarrow> int \<Rightarrow> direction \<Rightarrow> Piece list" where
  "move_first [] piece_x piece_y d = []"
| "move_first (piece # rest) piece_x piece_y d =
     (if coord_x piece = piece_x \<and> coord_y piece = piece_y
      then move_piece piece d # rest
      else piece # move_first rest piece_x piece_y d)"

definition get_new_state ::
  "(string \<Rightarrow> int) \<Rightarrow> State \<Rightarrow> int \<Rightarrow> int \<Rightarrow> direction \<Rightarrow> error + State" where
  "get_new_state hash state piece_x piece_y d =
     bind_err (Board_init (move_first (pieces (board state)) piece_x piece_y d)) (\<lambda>test_board.
       let updated_depth = depth state + 1;
           f_value = updated_depth + manhattan_distance test_board
       in Inr (State_init hash test_board f_value updated_depth (Some state)))"

text \<open>One \<open>if ...: successors.append(get_new_state(...))\<close> of \<open>generate_successors\<close>.\<close>

definition try_move ::
  "(string \<Rightarrow> int) \<Rightarrow> State \<Rightarrow> Piece \<Rightarrow> bool \<Rightarrow> direction \<Rightarrow> State list \<Rightarrow> error + State list" where
  "try_move hash state piece ok d successors =
     (if ok
      then bind_err (get_new_state hash state (coord_x piece) (coord_y piece) d) (\<lambda>new_state.
             Inr (successors @ [new_state]))
      else Inr successors)"

text \<open>The body of the loop of \<open>generate_successors\<close> for one piece.\<close>

definition piece_successors ::
  "(string \<Rightarrow> int) \<Rightarrow> State \<Rightarrow> Piece \<Rightarrow> State list \<Rightarrow> error + State list" where
  "piece_successors hash state piece successors =
     (let x = coord_x piece; y = coord_y piece in
      if is_goal piece then
        bind_err (try_move hash state piece
          (check_valid_spot state x (y - 1) \<and> check_valid_spot state (x + 1) (y - 1)) Up successors) (\<lambda>s1.
        bind_err (try_move hash state piece
          (check_valid_spot state x (y + 2) \<and> check_valid_spot state (x + 1) (y + 2)) Down s1) (\<lambda>s2.
        bind_err (try_move hash state piece
          (check_valid_spot state (x - 1) y \<and> check_valid_spot state (x - 1) (y + 1)) Left s2) (\<lambda>s3.
        try_move hash state piece
          (check_valid_spot state (x + 2) y \<and> check_valid_spot state (x + 2) (y + 1)) Right s3)))
      else if orientation piece = Some ''h'' then
        bind_err (try_move hash state piece
          (check_valid_spot state x (y - 1) \<and> check_valid_spot state (x + 1) (y - 1)) Up successors) (\<lambda>s1.
        bind_err (try_move hash state piece
          (check_valid_spot state x (y + 1) \<and> check_valid_spot state (x + 1) (y + 1)) Down s1) (\<lambda>s2.
        bind_err (try_move hash state piece
          (check_valid_spot state (x - 1) y) Left s2) (\<lambda>s3.
        try_move hash state piece
          (check_valid_spot state (x + 2) y) Right s3)))
      else if orientation piece = Some ''v'' then
        bind_err (try_move hash state piece
          (check_valid_spot state x (y - 1)) Up successors) (\<lambda>s1.
        bind_err (try_move hash state piece
          (check_valid_spot state x (y + 2)) Down s1) (\<lambda>s2.
        bind_err (try_move hash state piece
          (check_valid_spot state (x - 1) y \<and> check_valid_spot state (x - 1) (y + 1)) Left s2) (\<lambda>s3.
        try_move hash state piece
          (check_valid_spot state (x + 1) y \<and> check_valid_spot state (x + 1) (y + 1)) Right s3)))
      else
        bind_err (try_move hash state piece
          (check_valid_spot state x (y - 1)) Up successors) (\<lambda>s1.
        bind_err (try_move hash state piece
          (check_valid_spot state x (y + 1)) Down s1) (\<lambda>s2.
        bind_err (try_move hash state piece
          (check_valid_spot state (x - 1) y) Left s2) (\<lambda>s3.
        try_move hash state piece
          (check_valid_spot state (x + 1) y) Right s3))))"

fun successors_loop ::
  "(string \<Rightarrow> int) \<Rightarrow> State \<Rightarrow> Piece list \<Rightarrow> State list \<Rightarrow> error + State list" where
  "successors_loop hash state [] successors = Inr successors"
| "successors_loop hash state (piece # rest) successors =
     bind_err (piece_successors hash state piece successors) (successors_loop hash state rest)"

definition generate_successors :: "(string \<Rightarrow> int) \<Rightarrow> State \<Rightarrow> error + State list" where
  "generate_successors hash state = successors_loop hash state (pieces (board state)) []"

section \<open>Piece placement invariants\<close>

definition cells :: "Piece \<Rightarrow> (int \<times> int) list" where
  "cells p =
     (let x = coord_x p; y = coord_y p in
      if is_goal p then [(x, y), (x + 1, y), (x, y + 1), (x + 1, y + 1)]
      else if is_single p then [(x, y)]
      else if orientation p = Some ''h'' then [(x, y), (x + 1, y)]
      else if orientation p = Some ''v'' then [(x, y), (x, y + 1)]
      else [])"

definition cell_chars :: "Piece \<Rightarrow> char list" where
  "cell_chars p =
     (if is_goal p then [char_goal, char_goal, char_goal, char_goal]
      else if is_single p then [char_single]
      else if orientation p = Some ''h'' then [CHR ''<'', CHR ''>'']
      else if orientation p = Some ''v'' then [CHR ''^'', CHR ''v'']
      else [])"

definition in_grid :: "int \<times> int \<Rightarrow> bool" where
  "in_grid c = (0 \<le> fst c \<and> fst c < 4 \<and> 0 \<le> snd c \<and> snd c < 5)"

definition wf_piece :: "Piece \<Rightarrow> bool" where
  "wf_piece p =
     (is_goal p \<or> (is_single p \<longleftrightarrow> orientation p \<noteq> Some ''h'' \<and> orientation p \<noteq> Some ''v''))"

definition valid_pieces :: "Piece list \<Rightarrow> bool" where
  "valid_pieces ps =
     (list_all wf_piece ps \<and> list_all in_grid (concat (map cells ps)) \<and>
      distinct (concat (map cells ps)) \<and> length (filter is_goal ps) = 1)"

definition shape_ok :: "char list list \<Rightarrow> bool" where
  "shape_ok g = (length g = 5 \<and> list_all (\<lambda>r. length r = 4) g)"

definition at :: "char list list \<Rightarrow> int \<times> int \<Rightarrow> char" where
  "at g c = g ! nat (snd c) ! nat (fst c)"

definition char_at :: "Piece \<Rightarrow> int \<times> int \<Rightarrow> char" where
  "char_at p c =
     (if is_goal p then char_goal
      else if is_single p then char_single
      else if orientation p = Some ''h'' then
        (if c = (coord_x p, coord_y p) then CHR ''<'' else CHR ''>'')
      else (if c = (coord_x p, coord_y p) then CHR ''^'' else CHR ''v''))"

definition put :: "char list list \<Rightarrow> int \<times> int \<Rightarrow> char \<Rightarrow> char list list" where
  "put g c ch = g[nat (snd c) := (g ! nat (snd c))[nat (fst c) := ch]]"

fun last_cover :: "Piece list \<Rightarrow> int \<times> int \<Rightarrow> Piece option" where
  "last_cover [] c = None"
| "last_cover (p # ps) c =
     (case last_cover ps c of
        Some q \<Rightarrow> Some q
      | None \<Rightarrow> if c \<in> set (cells p) then Some p else None)"

fun last_goal :: "Piece list \<Rightarrow> Piece option" where
  "last_goal [] = None"
| "last_goal (p # ps) =
     (case last_goal ps of Some q \<Rightarrow> Some q | None \<Rightarrow> if is_goal p then Some p else None)"

definition dest_cells :: "Piece \<Rightarrow> direction \<Rightarrow> (int \<times> int) list" where
  "dest_cells p d = filter (\<lambda>c. c \<notin> set (cells p)) (cells (move_piece p d))"

definition occupied :: "Piece list \<Rightarrow> int \<times> int \<Rightarrow> bool" where
  "occupied ps c = list_ex (\<lambda>q. c \<in> set (cells q)) ps"

definition slide_ok :: "Piece list \<Rightarrow> Piece \<Rightarrow> direction \<Rightarrow> bool" where
  "slide_ok ps p d = list_all (\<lambda>c. in_grid c \<and> \<not> occupied ps c) (dest_cells p d)"

definition in_bounds :: "Piece list \<Rightarrow> bool" where
  "in_bounds ps = list_all in_grid (concat (map cells ps))"

text \<open>The condition under which \<open>generate_successors\<close> moves a piece in a direction.\<close>

definition move_cond :: "State \<Rightarrow> Piece \<Rightarrow> direction \<Rightarrow> bool" where
  "move_cond state piece d =
     (let x = coord_x piece; y = coord_y piece in
      if is_goal piece then
        (case d of
           Up \<Rightarrow> check_valid_spot state x (y - 1) \<and> check_valid_spot state (x + 1) (y - 1)
         | Down \<Rightarrow> check_valid_spot state x (y + 2) \<and> check_valid_spot state (x + 1) (y + 2)
         | Left \<Rightarrow> check_valid_spot state (x - 1) y \<and> check_valid_spot state (x - 1) (y + 1)
         | Right \<Rightarrow> check_valid_spot state (x + 2) y \<and> check_valid_spot state (x + 2) (y + 1))
      else if orientation piece = Some ''h'' then
        (case d of
           Up \<Rightarrow> check_valid_spot state x (y - 1) \<and> check_valid_spot state (x + 1) (y - 1)
         | Down \<Rightarrow> check_valid_spot state x (y + 1) \<and> check_valid_spot state (x + 1) (y + 1)
         | Left \<Rightarrow> check_valid_spot state (x - 1) y
         | Right \<Rightarrow> check_valid_spot state (x + 2) y)
      else if orientation piece = Some ''v'' then
        (case d of
           Up \<Rightarrow> check_valid_spot state x (y - 1)
         | Down \<Rightarrow> check_valid_spot state x (y + 2)
         | Left \<Rightarrow> check_valid_spot state (x - 1) y \<and> check_valid_spot state (x - 1) (y + 1)
         | Right \<Rightarrow> check_valid_spot state (x + 1) y \<and> check_valid_spot state (x + 1) (y + 1))
      else
        (case d of
           Up \<Rightarrow> check_valid_spot state x (y - 1)
         | Down \<Rightarrow> check_valid_spot state x (y + 1)
         | Left \<Rightarrow> check_valid_spot state (x - 1) y
         | Right \<Rightarrow> check_valid_spot state (x + 1) y))"

definition new_state :: "(string \<Rightarrow> int) \<Rightarrow> State \<Rightarrow> Piece list \<Rightarrow> State" where
  "new_state hash state ps' =
     (case Board_init ps' of
        Inr b \<Rightarrow> State_init hash b (depth state + 1 + manhattan_distance b) (depth state + 1) (Some state)
      | Inl e \<Rightarrow> state)"

definition dirs :: "direction list" where
  "dirs = [Up, Down, Left, Right]"

text \<open>The successors that come from moving the piece at index \<open>i\<close>.\<close>

definition slides_of :: "(string \<Rightarrow> int) \<Rightarrow> State \<Rightarrow> Piece list \<Rightarrow> nat \<Rightarrow> State list" where
  "slides_of hash s ps i =
     map (\<lambda>d. new_state hash s (ps[i := move_piece (ps ! i) d])) (filter (slide_ok ps (ps ! i)) dirs)"

text \<open>
  The moves the specification allows on a piece list: every pair of a piece (by its
  index) and a direction such that every destination cell of the piece's footprint,
  apart from the cells the piece occupies itself, is inside the grid and empty.
\<close>

definition legal_slides :: "Piece list \<Rightarrow> (nat \<times> direction) list" where
  "legal_slides ps =
     filter (\<lambda>(i, d). slide_ok ps (ps ! i) d) (List.product [0..<length ps] dirs)"

definition slide :: "Piece list \<Rightarrow> nat \<times> direction \<Rightarrow> Piece list" where
  "slide ps m = ps[fst m := move_piece (ps ! fst m) (snd m)]"

definition moves :: "Piece list \<Rightarrow> Piece list list" where
  "moves ps = map (slide ps) (legal_slides ps)"

text \<open>The four kinds of piece that \<open>read_from_file\<close> builds.\<close>

definition mk_goal :: "int \<Rightarrow> int \<Rightarrow> Piece" where
  "mk_goal x y = \<lparr>is_goal = True, is_single = False, coord_x = x, coord_y = y, orientation = None\<rparr>"

definition mk_single :: "int \<Rightarrow> int \<Rightarrow> Piece" where
  "mk_single x y = \<lparr>is_goal = False, is_single = True, coord_x = x, coord_y = y, orientation = None\<rparr>"

definition mk_h :: "int \<Rightarrow> int \<Rightarrow> Piece" where
  "mk_h x y = \<lparr>is_goal = False, is_single = False, coord_x = x, coord_y = y, orientation = Some ''h''\<rparr>"


text \<open>The root state of \<open>__main__\<close>: \<open>State(board, 0, 0, parent=None)\<close>.\<close>

definition first_state :: "(string \<Rightarrow> int) \<Rightarrow> Board \<Rightarrow> State" where
  "first_state hash b = State_init hash b 0 0 None"

text \<open>A small valid board for the examples: the goal piece at (1, 0) and a 1x1 piece at (0, 0).\<close>

definition example_pieces :: "Piece list" where
  "example_pieces = [mk_goal 1 0, mk_single 0 0]"

definition example_board :: Board where
  "example_board =
     \<lparr>width = 4, height = 5, pieces = example_pieces,
      grid = [''211.'', ''.11.'', ''....'', ''....'', ''....''], goal_piece_coordinates = [1, 0]\<rparr>"

text \<open>
  \<open>heapq\<close> keeps a binary heap in a list; \<open>lt\<close> is the \<open>__lt__\<close> of the items. These are
  \<open>_siftdown\<close>, \<open>heappush\<close>, \<open>_siftup\<close> and \<open>heappop\<close> of CPython's \<open>heapq.py\<close>.
\<close>

function siftdown_loop :: "('a \<Rightarrow> 'a \<Rightarrow> bool) \<Rightarrow> 'a list \<Rightarrow> 'a \<Rightarrow> nat \<Rightarrow> nat \<Rightarrow> 'a list" where
  "siftdown_loop lt heap newitem startpos pos =
     (if pos > startpos then
        (let parentpos = (pos - 1) div 2; parent = heap ! parentpos in
         if lt newitem parent
         then siftdown_loop lt (heap[pos := parent]) newitem startpos parentpos
         else heap[pos := newitem])
      else heap[pos := newitem])"
  by pat_completeness auto

termination
  by (relation "measure (\<lambda>(lt, heap, newitem, startpos, pos). pos)") auto

definition siftdown :: "('a \<Rightarrow> 'a \<Rightarrow> bool) \<Rightarrow> 'a list \<Rightarrow> nat \<Rightarrow> nat \<Rightarrow> 'a list" where
  "siftdown lt heap startpos pos = siftdown_loop lt heap (heap ! pos) startpos pos"

definition heappush :: "('a \<Rightarrow> 'a \<Rightarrow> bool) \<Rightarrow> 'a list \<Rightarrow> 'a \<Rightarrow> 'a list" where
  "heappush lt heap item = siftdown lt (heap @ [item]) 0 (length heap)"

function siftup_loop :: "('a \<Rightarrow> 'a \<Rightarrow> bool) \<Rightarrow> 'a list \<Rightarrow> nat \<Rightarrow> 'a list \<times> nat" where
  "siftup_loop lt heap pos =
     (let childpos = 2 * pos + 1 in
      if childpos < length heap then
        (let rightpos = childpos + 1;
             childpos' = (if rightpos < length heap \<and> \<not> lt (heap ! childpos) (heap ! rightpos)
                          then rightpos else childpos)
         in siftup_loop lt (heap[pos := heap ! childpos']) childpos')
      else (heap, pos))"
  by pat_completeness auto

termination
  by (relation "measure (\<lambda>(lt, heap, pos). length heap - pos)") auto

definition siftup :: "('a \<Rightarrow> 'a \<Rightarrow> bool) \<Rightarrow> 'a list \<Rightarrow> nat \<Rightarrow> 'a list" where
  "siftup lt heap pos =
     (let newitem = heap ! pos in
      case siftup_loop lt heap pos of
        (heap', pos') \<Rightarrow> siftdown lt (heap'[pos' := newitem]) pos pos')"

text \<open>\<open>heappop\<close> on a non-empty heap (the searches only pop inside \<open>while frontier\<close>).\<close>

definition heappop :: "('a \<Rightarrow> 'a \<Rightarrow> bool) \<Rightarrow> 'a list \<Rightarrow> 'a \<times> 'a list" where
  "heappop lt heap =
     (let lastelt = last heap; heap' = butlast heap in
      if heap' \<noteq> [] then (heap' ! 0, siftup lt (heap'[0 := lastelt]) 0)
      else (lastelt, []))"




partial_function (option) A_star_loop ::
  "(string \<Rightarrow> int) \<Rightarrow> State list \<Rightarrow> int set \<Rightarrow> (error + State option) option" where
  "A_star_loop hash frontier visited =
     (if frontier = [] then Some (Inr None)
      else
        (case heappop state_lt frontier of
           (curr_state, frontier') \<Rightarrow>
             if sid curr_state \<in> visited then A_star_loop hash frontier' visited
             else if goal_test curr_state then Some (Inr (Some curr_state))
             else
               (case generate_successors hash curr_state of
                  Inl e \<Rightarrow> Some (Inl e)
                | Inr successors \<Rightarrow>
                    A_star_loop hash (fold (\<lambda>s heap. heappush state_lt heap s) successors frontier')
                      (insert (sid curr_state) visited))))"

declare A_star_loop.simps [code]

definition A_star :: "(string \<Rightarrow> int) \<Rightarrow> State \<Rightarrow> (error + State option) option" where
  "A_star hash state = A_star_loop hash (heappush state_lt [] state) {}"

fun all_states :: "State \<Rightarrow> State list" where
  "all_states (State b fv d None i) = []"
| "all_states (State b fv d (Some p) i) = State b fv d (Some p) i # all_states p"

text \<open>The grids that \<open>write_to_file\<close> writes: the first state's, then the reversed chain's.\<close>

definition written_grids :: "State \<Rightarrow> State \<Rightarrow> char list list list" where
  "written_grids first solution = grid (board first) # map (\<lambda>s. grid (board s)) (rev (all_states solution))"

text \<open>The piece lists reachable from \<open>ps\<close> by exactly \<open>n\<close> legal slides.\<close>

fun reach_in :: "nat \<Rightarrow> Piece list \<Rightarrow> Piece list list" where
  "reach_in 0 ps = [ps]"
| "reach_in (Suc n) ps = concat (map moves (reach_in n ps))"

definition reachable :: "Piece list \<Rightarrow> Piece list set" where
  "reachable ps = (\<Union>n. set (reach_in n ps))"

text \<open>The grid that the constructor builds from a piece list, and the id of a state on it.\<close>

definition grid_of :: "Piece list \<Rightarrow> char list list" where
  "grid_of ps = (case Board_init ps of Inr b \<Rightarrow> grid b | Inl e \<Rightarrow> [])"

definition id_of :: "(string \<Rightarrow> int) \<Rightarrow> Piece list \<Rightarrow> int" where
  "id_of hash ps = hash (str_grid (grid_of ps))"

text \<open>The states a search can build from \<open>root\<close>: the root and the successors of such states.\<close>

inductive derived :: "(string \<Rightarrow> int) \<Rightarrow> State \<Rightarrow> State \<Rightarrow> bool" for hash root where
  derived_root: "derived hash root root"
| derived_step: "derived hash root s \<Longrightarrow> generate_successors hash s = Inr succs \<Longrightarrow>
                 t \<in> set succs \<Longrightarrow> derived hash root t"



text \<open>What holds of every state a search builds from the root over the piece list \<open>ps0\<close>.\<close>

definition state_ok :: "(string \<Rightarrow> int) \<Rightarrow> Piece list \<Rightarrow> State \<Rightarrow> bool" where
  "state_ok hash ps0 t \<longleftrightarrow>
     valid_pieces (pieces (board t)) \<and> Board_init (pieces (board t)) = Inr (board t) \<and>
     sid t = id_of hash (pieces (board t)) \<and>
     0 \<le> depth t \<and> pieces (board t) \<in> set (reach_in (nat (depth t)) ps0) \<and>
     fval t \<le> depth t + manhattan_distance (board t) \<and>
     (depth t = 0 \<or> fval t = depth t + manhattan_distance (board t))"

text \<open>A hash for the examples: the position of the first goal character in the string.\<close>

definition first_goal_pos :: "string \<Rightarrow> int" where
  "first_goal_pos s = int (length (takeWhile (\<lambda>c. c \<noteq> CHR ''1'') s))"


text \<open>
  The subscripts that Python accepts on the 5 rows of 4 cells: a column from -4 to 3 and
  a row from -5 to 4.
\<close>

definition in_wrap :: "int \<times> int \<Rightarrow> bool" where
  "in_wrap c = (- 4 \<le> fst c \<and> fst c < 4 \<and> - 5 \<le> snd c \<and> snd c < 5)"

text \<open>
  The distance of the specification: from the corner of the goal piece (the last piece of
  the list flagged \<open>is_goal\<close>, the one \<open>__construct_grid\<close> leaves in
  \<open>goal_piece_coordinates\<close>) to (1, 3).
\<close>

definition goal_dist :: "Piece list \<Rightarrow> int" where
  "goal_dist ps =
     (case last_goal ps of
        Some p \<Rightarrow> \<bar>coord_x p - 1\<bar> + \<bar>coord_y p - 3\<bar>
      | None \<Rightarrow> 4)"

text \<open>A goal configuration: the corner of a goal piece is at (1, 3).\<close>

definition goal_config :: "Piece list \<Rightarrow> bool" where
  "goal_config ps = list_ex (\<lambda>p. is_goal p \<and> coord_x p = 1 \<and> coord_y p = 3) ps"

(*DEFS-END*)

section \<open>The grid built by the constructor\<close>

lemma py_index_in: "0 \<le> i \<Longrightarrow> i < int n \<Longrightarrow> py_index n i = Some (nat i)"
  by (simp add: py_index_def)

lemma shape_ok_row: "shape_ok g \<Longrightarrow> 0 \<le> y \<Longrightarrow> y < 5 \<Longrightarrow> length (g ! nat y) = 4"
  by (auto simp: shape_ok_def list_all_length)

lemma set_cell_in:
  assumes "shape_ok g" "in_grid (x, y)"
  shows "set_cell g y x c = Inr (g[nat y := (g ! nat y)[nat x := c]])"
  using assms shape_ok_row[of g y]
  by (simp add: set_cell_def in_grid_def py_index_in shape_ok_def)

lemma shape_ok_upd:
  "shape_ok g \<Longrightarrow> shape_ok (g[i := (g ! i)[j := c]])"
proof -
  assume a: "shape_ok g"
  have "length ((g[i := (g ! i)[j := c]]) ! n) = 4" if "n < 5" for n
    using a that by (cases "i = n") (auto simp: shape_ok_def list_all_length)
  with a show ?thesis by (simp add: shape_ok_def list_all_length)
qed

lemma at_upd:
  assumes "shape_ok g" "in_grid (x, y)" "in_grid c'"
  shows "at (g[nat y := (g ! nat y)[nat x := c]]) c' = (if c' = (x, y) then c else at g c')"
  using assms shape_ok_row[of g y]
  by (cases c') (auto simp: at_def in_grid_def shape_ok_def nth_list_update nat_eq_iff)

lemma set_cell_put: "shape_ok g \<Longrightarrow> in_grid (x, y) \<Longrightarrow> set_cell g y x c = Inr (put g (x, y) c)"
  by (simp add: set_cell_in put_def)

lemma shape_ok_put: "shape_ok g \<Longrightarrow> shape_ok (put g c ch)"
  by (simp add: put_def shape_ok_upd)

lemma at_put:
  "shape_ok g \<Longrightarrow> in_grid c \<Longrightarrow> in_grid c' \<Longrightarrow> at (put g c ch) c' = (if c' = c then ch else at g c')"
  using at_upd[of g "fst c" "snd c" c' ch] by (simp add: put_def)

lemma bind_err_Inr [simp]: "bind_err (Inr v) k = k v"
  by (simp add: bind_err_def)

lemma bind_err_Inl [simp]: "bind_err (Inl e) k = Inl e"
  by (simp add: bind_err_def)

lemma place_piece_in:
  assumes "shape_ok g" "list_all in_grid (cells p)"
  shows "\<exists>g'. place_piece p (g, gpc) =
           Inr (g', if is_goal p then (gpc[0 := coord_x p])[1 := coord_y p] else gpc) \<and>
         shape_ok g' \<and>
         (\<forall>c. in_grid c \<longrightarrow> at g' c = (if c \<in> set (cells p) then char_at p c else at g c))"
  using assms
  by (auto simp: place_piece_def cells_def char_at_def Let_def set_cell_put shape_ok_put at_put)

lemma gpc_upd: "length gpc = 2 \<Longrightarrow> (gpc[0 := a])[Suc 0 := b] = [a, b]"
  by (cases gpc; cases "tl gpc") auto

lemma place_pieces_in:
  assumes "shape_ok g" "list_all in_grid (concat (map cells ps))" "length gpc = 2"
  shows "\<exists>g' gpc'. place_pieces ps (g, gpc) = Inr (g', gpc') \<and> shape_ok g' \<and>
         (\<forall>c. in_grid c \<longrightarrow>
            at g' c = (case last_cover ps c of None \<Rightarrow> at g c | Some p \<Rightarrow> char_at p c)) \<and>
         gpc' = (case last_goal ps of None \<Rightarrow> gpc | Some p \<Rightarrow> [coord_x p, coord_y p])"
  using assms
proof (induction ps arbitrary: g gpc)
  case Nil
  then show ?case by simp
next
  case (Cons p ps)
  from Cons.prems have inp: "list_all in_grid (cells p)"
    and inps: "list_all in_grid (concat (map cells ps))" by simp_all
  from place_piece_in[OF Cons.prems(1) inp, of gpc] obtain g1 where
    g1: "place_piece p (g, gpc) = Inr (g1, if is_goal p then (gpc[0 := coord_x p])[1 := coord_y p] else gpc)"
    and s1: "shape_ok g1"
    and a1: "\<And>c. in_grid c \<Longrightarrow> at g1 c = (if c \<in> set (cells p) then char_at p c else at g c)"
    by blast
  let ?gpc1 = "if is_goal p then (gpc[0 := coord_x p])[1 := coord_y p] else gpc"
  have l1: "length ?gpc1 = 2" using Cons.prems(3) by simp
  from Cons.IH[OF s1 inps l1] obtain g' gpc' where
    r: "place_pieces ps (g1, ?gpc1) = Inr (g', gpc')" and s': "shape_ok g'"
    and a': "\<And>c. in_grid c \<Longrightarrow>
            at g' c = (case last_cover ps c of None \<Rightarrow> at g1 c | Some p \<Rightarrow> char_at p c)"
    and gp: "gpc' = (case last_goal ps of None \<Rightarrow> ?gpc1 | Some p \<Rightarrow> [coord_x p, coord_y p])"
    by blast
  have "place_pieces (p # ps) (g, gpc) = Inr (g', gpc')" using g1 r by simp
  moreover have "at g' c = (case last_cover (p # ps) c of None \<Rightarrow> at g c | Some p \<Rightarrow> char_at p c)"
    if "in_grid c" for c
    using a'[OF that] a1[OF that] by (simp split: option.splits)
  moreover have "gpc' = (case last_goal (p # ps) of None \<Rightarrow> gpc | Some p \<Rightarrow> [coord_x p, coord_y p])"
    using gp Cons.prems(3) by (simp add: gpc_upd split: option.splits)
  ultimately show ?case using s' by blast
qed


lemma last_cover_None: "last_cover ps c = None \<longleftrightarrow> (\<forall>p \<in> set ps. c \<notin> set (cells p))"
  by (induction ps) (auto split: option.splits if_splits)

lemma last_goal_Some: "last_goal ps = Some q \<Longrightarrow> q \<in> set ps \<and> is_goal q"
  by (induction ps) (auto split: option.splits if_splits)

lemma last_goal_None: "last_goal ps = None \<longleftrightarrow> (\<forall>p \<in> set ps. \<not> is_goal p)"
  by (induction ps) (auto split: option.splits if_splits)


lemma goal_unique:
  "length (filter is_goal ps) = 1 \<Longrightarrow> p \<in> set ps \<Longrightarrow> q \<in> set ps \<Longrightarrow> is_goal p \<Longrightarrow> is_goal q \<Longrightarrow> p = q"
  by (induction ps) (auto split: if_splits simp: filter_empty_conv)

lemma shape_ok_empty: "shape_ok (empty_grid 5 4)"
  by (simp add: shape_ok_def empty_grid_def list_all_length)

lemma at_empty: "in_grid c \<Longrightarrow> at (empty_grid 5 4) c = CHR ''.''"
proof -
  assume "in_grid c"
  then have "nat (snd c) < 5" "nat (fst c) < 4" by (auto simp: in_grid_def)
  then show ?thesis by (simp add: at_def empty_grid_def)
qed

lemma Board_init_in_bounds:
  assumes "in_bounds ps"
  shows "\<exists>b. Board_init ps = Inr b \<and> width b = 4 \<and> height b = 5 \<and> pieces b = ps \<and>
           shape_ok (grid b) \<and>
           (\<forall>c. in_grid c \<longrightarrow>
              at (grid b) c = (case last_cover ps c of None \<Rightarrow> CHR ''.'' | Some p \<Rightarrow> char_at p c)) \<and>
           goal_piece_coordinates b =
             (case last_goal ps of None \<Rightarrow> [0, 0] | Some p \<Rightarrow> [coord_x p, coord_y p])"
proof -
  from place_pieces_in[OF shape_ok_empty, of ps "[0, 0]"] assms
  obtain g' gpc' where r: "place_pieces ps (empty_grid 5 4, [0, 0]) = Inr (g', gpc')"
    and s: "shape_ok g'"
    and a: "\<And>c. in_grid c \<Longrightarrow>
         at g' c = (case last_cover ps c of None \<Rightarrow> at (empty_grid 5 4) c | Some p \<Rightarrow> char_at p c)"
    and g: "gpc' = (case last_goal ps of None \<Rightarrow> [0, 0] | Some p \<Rightarrow> [coord_x p, coord_y p])"
    unfolding in_bounds_def by auto
  have "at g' c = (case last_cover ps c of None \<Rightarrow> CHR ''.'' | Some p \<Rightarrow> char_at p c)"
    if "in_grid c" for c
    using a[OF that] at_empty[OF that] by (simp split: option.splits)
  then show ?thesis using r s g by (simp add: Board_init_def construct_grid_def)
qed

lemma char_at_not_empty: "char_at p c \<noteq> CHR ''.''"
  by (simp add: char_at_def char_goal_def char_single_def)

lemma occupied_iff: "occupied ps c \<longleftrightarrow> (\<exists>q \<in> set ps. c \<in> set (cells q))"
  by (simp add: occupied_def list_ex_iff)

lemma check_valid_spot_iff:
  assumes "in_bounds ps" "Board_init ps = Inr (board s)"
  shows "check_valid_spot s x y \<longleftrightarrow> in_grid (x, y) \<and> \<not> occupied ps (x, y)"
proof (cases "in_grid (x, y)")
  case False
  then show ?thesis using Board_init_in_bounds[OF assms(1)] assms(2)
    by (auto simp: check_valid_spot_def in_grid_def)
next
  case True
  from Board_init_in_bounds[OF assms(1)] assms(2)
  have w: "width (board s) = 4" "height (board s) = 5"
    and a: "at (grid (board s)) (x, y) =
       (case last_cover ps (x, y) of None \<Rightarrow> CHR ''.'' | Some p \<Rightarrow> char_at p (x, y))"
    using True by auto
  have "check_valid_spot s x y \<longleftrightarrow> at (grid (board s)) (x, y) = CHR ''.''"
    using True w by (simp add: check_valid_spot_def in_grid_def at_def char_empty_def)
  also have "\<dots> \<longleftrightarrow> last_cover ps (x, y) = None"
    using a by (simp add: char_at_not_empty split: option.splits)
  also have "\<dots> \<longleftrightarrow> \<not> occupied ps (x, y)"
    by (simp add: last_cover_None occupied_iff)
  finally show ?thesis using True by simp
qed

lemma piece_successors_conv:
  "piece_successors hash s p acc =
     bind_err (try_move hash s p (move_cond s p Up) Up acc) (\<lambda>s1.
     bind_err (try_move hash s p (move_cond s p Down) Down s1) (\<lambda>s2.
     bind_err (try_move hash s p (move_cond s p Left) Left s2) (\<lambda>s3.
     try_move hash s p (move_cond s p Right) Right s3)))"
  by (simp add: piece_successors_def move_cond_def Let_def)

lemma move_cond_iff:
  assumes "in_bounds ps" "Board_init ps = Inr (board s)" "wf_piece p"
  shows "move_cond s p d \<longleftrightarrow> slide_ok ps p d"
proof -
  note cv = check_valid_spot_iff[OF assms(1,2)]
  show ?thesis
  proof (cases d)
    case Up
    then show ?thesis using assms(3)
      by (simp add: move_cond_def slide_ok_def dest_cells_def cells_def move_piece_def Let_def
          wf_piece_def cv) (auto simp: add.commute)
  next
    case Down
    then show ?thesis using assms(3)
      by (simp add: move_cond_def slide_ok_def dest_cells_def cells_def move_piece_def Let_def
          wf_piece_def cv) (auto simp: add.commute)
  next
    case Left
    then show ?thesis using assms(3)
      by (simp add: move_cond_def slide_ok_def dest_cells_def cells_def move_piece_def Let_def
          wf_piece_def cv) (auto simp: add.commute)
  next
    case Right
    then show ?thesis using assms(3)
      by (simp add: move_cond_def slide_ok_def dest_cells_def cells_def move_piece_def Let_def
          wf_piece_def cv) (auto simp: add.commute)
  qed
qed

lemma move_first_split:
  assumes "\<forall>q \<in> set xs. \<not> (coord_x q = x \<and> coord_y q = y)" "coord_x p = x" "coord_y p = y"
  shows "move_first (xs @ p # ys) x y d = xs @ move_piece p d # ys"
  using assms by (induction xs) auto

lemma anchor_in_cells: "wf_piece p \<Longrightarrow> (coord_x p, coord_y p) \<in> set (cells p)"
  by (auto simp: wf_piece_def cells_def Let_def)

lemma distinct_cells: "distinct (cells p)"
  by (simp add: cells_def Let_def)

lemma wf_move_piece [simp]: "wf_piece (move_piece p d) = wf_piece p"
  by (cases d) (simp_all add: wf_piece_def move_piece_def)

lemma is_goal_move_piece [simp]: "is_goal (move_piece p d) = is_goal p"
  by (cases d) (simp_all add: move_piece_def)

lemma valid_split_anchor:
  assumes "valid_pieces (xs @ p # ys)"
  shows "\<forall>q \<in> set xs. \<not> (coord_x q = coord_x p \<and> coord_y q = coord_y p)"
proof
  fix q assume q: "q \<in> set xs"
  from assms have wf: "wf_piece q" "wf_piece p" and d: "set (cells q) \<inter> set (cells p) = {}"
    using q by (auto simp: valid_pieces_def list_all_iff)
  show "\<not> (coord_x q = coord_x p \<and> coord_y q = coord_y p)"
    using anchor_in_cells[OF wf(1)] anchor_in_cells[OF wf(2)] d by auto
qed

lemma cells_move_subset: "set (cells (move_piece p d)) \<subseteq> set (dest_cells p d) \<union> set (cells p)"
  by (auto simp: dest_cells_def)

lemma valid_move:
  assumes v: "valid_pieces (xs @ p # ys)" and ok: "slide_ok (xs @ p # ys) p d"
  shows "valid_pieces (xs @ move_piece p d # ys)"
proof -
  let ?p' = "move_piece p d"
  have dest: "\<And>c. c \<in> set (dest_cells p d) \<Longrightarrow> in_grid c \<and> \<not> occupied (xs @ p # ys) c"
    using ok by (simp add: slide_ok_def list_all_iff)
  have old: "\<And>c. c \<in> set (cells p) \<Longrightarrow> in_grid c"
    using v by (auto simp: valid_pieces_def list_all_iff)
  have in': "\<And>c. c \<in> set (cells ?p') \<Longrightarrow> in_grid c"
    using cells_move_subset[of p d] dest old by blast
  have dxs: "distinct (concat (map cells xs))" and dys: "distinct (concat (map cells ys))"
    using v by (auto simp: valid_pieces_def)
  have dp: "\<And>q c. q \<in> set xs \<or> q \<in> set ys \<Longrightarrow> c \<in> set (cells q) \<Longrightarrow> c \<notin> set (cells p)"
    using v by (auto simp: valid_pieces_def)
  have dxy: "\<And>q r c. q \<in> set xs \<Longrightarrow> r \<in> set ys \<Longrightarrow> c \<in> set (cells q) \<Longrightarrow> c \<notin> set (cells r)"
    using v by (auto simp: valid_pieces_def)
  have free: "c \<notin> set (cells ?p')" if q: "q \<in> set xs \<or> q \<in> set ys" and c: "c \<in> set (cells q)" for q c
  proof
    assume c': "c \<in> set (cells ?p')"
    have "c \<notin> set (cells p)" using dp[OF q c] .
    then have "c \<in> set (dest_cells p d)" using c' by (simp add: dest_cells_def)
    then have "\<not> occupied (xs @ p # ys) c" using dest by blast
    then show False using q c by (auto simp: occupied_iff)
  qed
  have "distinct (concat (map cells (xs @ ?p' # ys)))"
    using dxs dys free dxy distinct_cells[of ?p'] by auto
  moreover have "list_all in_grid (concat (map cells (xs @ ?p' # ys)))"
    using v in' by (auto simp: valid_pieces_def list_all_iff)
  moreover have "list_all wf_piece (xs @ ?p' # ys)"
    using v by (auto simp: valid_pieces_def)
  moreover have "length (filter is_goal (xs @ ?p' # ys)) = 1"
    using v by (auto simp: valid_pieces_def)
  ultimately show ?thesis by (simp add: valid_pieces_def)
qed

lemma valid_in_bounds: "valid_pieces ps \<Longrightarrow> in_bounds ps"
  by (simp add: valid_pieces_def in_bounds_def)

lemma Board_init_pieces: "Board_init ps = Inr b \<Longrightarrow> pieces b = ps"
  by (auto simp: Board_init_def bind_err_def split: sum.splits prod.splits)

lemma get_new_state_valid:
  assumes v: "valid_pieces ps" and b: "Board_init ps = Inr (board s)"
    and sp: "ps = xs @ p # ys" and ok: "slide_ok ps p d"
  shows "get_new_state hash s (coord_x p) (coord_y p) d = Inr (new_state hash s (xs @ move_piece p d # ys))"
proof -
  have mf: "move_first (pieces (board s)) (coord_x p) (coord_y p) d = xs @ move_piece p d # ys"
    using Board_init_pieces[OF b] valid_split_anchor[of xs p ys] v sp
    by (simp add: move_first_split)
  have "valid_pieces (xs @ move_piece p d # ys)" using valid_move v ok sp by simp
  then obtain b' where "Board_init (xs @ move_piece p d # ys) = Inr b'"
    using Board_init_in_bounds[OF valid_in_bounds] by blast
  then show ?thesis by (simp add: get_new_state_def mf new_state_def Let_def)
qed

lemma try_move_valid:
  assumes v: "valid_pieces ps" and b: "Board_init ps = Inr (board s)"
    and sp: "ps = xs @ p # ys"
  shows "try_move hash s p (move_cond s p d) d acc =
           Inr (acc @ map (\<lambda>d. new_state hash s (xs @ move_piece p d # ys)) (filter (slide_ok ps p) [d]))"
proof -
  have wf: "wf_piece p" using v sp by (simp add: valid_pieces_def)
  have mc: "move_cond s p d \<longleftrightarrow> slide_ok ps p d"
    using move_cond_iff[OF valid_in_bounds[OF v] b wf] .
  show ?thesis
    using get_new_state_valid[OF v b sp, of d hash] by (simp add: try_move_def mc)
qed

lemma piece_successors_valid:
  assumes v: "valid_pieces ps" and b: "Board_init ps = Inr (board s)"
    and sp: "ps = xs @ p # ys"
  shows "piece_successors hash s p acc = Inr (acc @ slides_of hash s ps (length xs))"
proof -
  have nth: "ps ! length xs = p" and upd: "\<And>q. ps[length xs := q] = xs @ q # ys"
    using sp by simp_all
  have "slides_of hash s ps (length xs) =
      concat (map (\<lambda>d. map (\<lambda>d. new_state hash s (xs @ move_piece p d # ys)) (filter (slide_ok ps p) [d])) dirs)"
    by (simp add: slides_of_def nth upd dirs_def)
  then show ?thesis
    by (simp add: piece_successors_conv try_move_valid[OF v b sp] dirs_def)
qed

lemma successors_loop_valid:
  assumes v: "valid_pieces ps" and b: "Board_init ps = Inr (board s)"
  shows "ps = xs @ ys \<Longrightarrow>
     successors_loop hash s ys acc =
       Inr (acc @ concat (map (slides_of hash s ps) [length xs..<length ps]))"
proof (induction ys arbitrary: xs acc)
  case Nil
  then show ?case by simp
next
  case (Cons p ys)
  have sp: "ps = (xs @ [p]) @ ys" using Cons.prems by simp
  have up: "[length xs..<length ps] = length xs # [length (xs @ [p])..<length ps]"
  proof -
    have "length xs < length ps" using Cons.prems by simp
    then show ?thesis by (simp add: upt_conv_Cons)
  qed
  show ?case
    using piece_successors_valid[OF v b Cons.prems, of hash acc] Cons.IH[OF sp]
    by (simp add: up)
qed

lemma generate_successors_valid:
  assumes v: "valid_pieces ps" and b: "Board_init ps = Inr (board s)"
  shows "generate_successors hash s = Inr (concat (map (slides_of hash s ps) [0..<length ps]))"
  using successors_loop_valid[OF v b, of "[]" ps hash "[]"] Board_init_pieces[OF b]
  by (simp add: generate_successors_def)

lemma new_state_Inr:
  "Board_init ps' = Inr b' \<Longrightarrow>
   new_state hash s ps' =
     State b' (depth s + 1 + manhattan_distance b') (depth s + 1) (Some s) (hash (str_grid (grid b')))"
  by (simp add: new_state_def State_init_def)

lemma valid_slide:
  assumes v: "valid_pieces ps" and i: "i < length ps" and ok: "slide_ok ps (ps ! i) d"
  shows "valid_pieces (ps[i := move_piece (ps ! i) d])"
proof -
  have sp: "ps = take i ps @ ps ! i # drop (Suc i) ps" using i by (simp add: id_take_nth_drop)
  have "valid_pieces (take i ps @ move_piece (ps ! i) d # drop (Suc i) ps)"
    using valid_move[of "take i ps" "ps ! i" "drop (Suc i) ps" d] v ok sp by simp
  then show ?thesis using i by (simp add: upd_conv_take_nth_drop)
qed

lemma legal_slides_iff:
  "(i, d) \<in> set (legal_slides ps) \<longleftrightarrow> i < length ps \<and> slide_ok ps (ps ! i) d"
  by (cases d) (auto simp: legal_slides_def dirs_def)

lemma distinct_legal_slides: "distinct (legal_slides ps)"
  by (simp add: legal_slides_def dirs_def distinct_product)

lemma concat_slides_of:
  "concat (map (slides_of hash s ps) [0..<n]) =
     map (\<lambda>m. new_state hash s (slide ps m))
       (filter (\<lambda>(i, d). slide_ok ps (ps ! i) d) (List.product [0..<n] dirs))"
proof (induction n)
  case 0
  then show ?case by simp
next
  case (Suc n)
  have "List.product [0..<Suc n] dirs = List.product [0..<n] dirs @ map (Pair n) dirs"
    by (simp add: product_concat_map)
  then show ?case using Suc
    by (simp add: slides_of_def slide_def filter_map comp_def)
qed

lemma generate_successors_moves:
  assumes v: "valid_pieces ps" and b: "Board_init ps = Inr (board s)"
  shows "generate_successors hash s = Inr (map (\<lambda>m. new_state hash s (slide ps m)) (legal_slides ps))"
  using generate_successors_valid[OF v b, of hash] concat_slides_of[of hash s ps "length ps"]
  by (simp add: legal_slides_def)

lemma successor_props:
  assumes v: "valid_pieces ps" and m: "m \<in> set (legal_slides ps)"
  shows "valid_pieces (slide ps m) \<and>
         (\<exists>b'. Board_init (slide ps m) = Inr b' \<and>
            new_state hash s (slide ps m) =
              State b' (depth s + 1 + manhattan_distance b') (depth s + 1) (Some s)
                (hash (str_grid (grid b'))))"
proof -
  obtain i d where md: "m = (i, d)" by (cases m)
  then have i: "i < length ps" and ok: "slide_ok ps (ps ! i) d"
    using m legal_slides_iff by auto
  have v': "valid_pieces (slide ps m)" using valid_slide[OF v i ok] md by (simp add: slide_def)
  then obtain b' where "Board_init (slide ps m) = Inr b'"
    using Board_init_in_bounds[OF valid_in_bounds] by blast
  then show ?thesis using v' new_state_Inr by blast
qed

lemma move_piece_neq: "move_piece p d \<noteq> p"
proof
  assume a: "move_piece p d = p"
  have "coord_x (move_piece p d) \<noteq> coord_x p \<or> coord_y (move_piece p d) \<noteq> coord_y p"
    by (cases d) (simp_all add: move_piece_def)
  then show False using a by simp
qed

lemma move_piece_inj: "move_piece p d = move_piece p e \<Longrightarrow> d = e"
proof -
  assume a: "move_piece p d = move_piece p e"
  then have "coord_x (move_piece p d) = coord_x (move_piece p e)"
    "coord_y (move_piece p d) = coord_y (move_piece p e)" by simp_all
  then show ?thesis by (cases d; cases e) (simp_all add: move_piece_def)
qed

lemma slide_inj:
  assumes "fst m < length ps" "fst m' < length ps" "slide ps m = slide ps m'"
  shows "m = m'"
proof -
  obtain i d where m: "m = (i, d)" by (cases m)
  obtain j e where m': "m' = (j, e)" by (cases m')
  have eq: "ps[i := move_piece (ps ! i) d] = ps[j := move_piece (ps ! j) e]"
    using assms(3) m m' by (simp add: slide_def)
  have ij: "i = j"
  proof (rule ccontr)
    assume "i \<noteq> j"
    then have "ps[j := move_piece (ps ! j) e] ! i = ps ! i" by simp
    moreover have "ps[i := move_piece (ps ! i) d] ! i = move_piece (ps ! i) d"
      using assms(1) m by simp
    ultimately show False using eq move_piece_neq by metis
  qed
  have "ps[i := move_piece (ps ! i) d] ! i = ps[i := move_piece (ps ! i) e] ! i"
    using eq ij by simp
  then have "move_piece (ps ! i) d = move_piece (ps ! i) e" using assms(1) m by simp
  then show ?thesis using ij m m' move_piece_inj by blast
qed

lemma distinct_moves: "distinct (moves ps)"
proof -
  have "inj_on (slide ps) (set (legal_slides ps))"
  proof (rule inj_onI)
    fix m m' assume a: "m \<in> set (legal_slides ps)" "m' \<in> set (legal_slides ps)"
      "slide ps m = slide ps m'"
    have "fst m < length ps" "fst m' < length ps"
      using a(1,2) legal_slides_iff[of "fst m" "snd m" ps] legal_slides_iff[of "fst m'" "snd m'" ps]
      by simp_all
    then show "m = m'" using slide_inj a(3) by blast
  qed
  then show ?thesis by (simp add: moves_def distinct_map distinct_legal_slides)
qed

lemma example_valid: "valid_pieces example_pieces"
  by code_simp

lemma example_Board_init: "Board_init example_pieces = Inr example_board"
  by code_simp

lemma list_all_new_state:
  assumes v: "valid_pieces ps"
  shows "list_all (\<lambda>t. valid_pieces (pieces (board t)) \<and> Board_init (pieces (board t)) = Inr (board t) \<and>
            depth t = depth s + 1 \<and> parent t = Some s)
          (map (\<lambda>m. new_state hash s (slide ps m)) (legal_slides ps))"
proof -
  have "valid_pieces (pieces (board t)) \<and> Board_init (pieces (board t)) = Inr (board t) \<and>
        depth t = depth s + 1 \<and> parent t = Some s"
    if "m \<in> set (legal_slides ps)" "t = new_state hash s (slide ps m)" for m t
    using successor_props[OF v that(1), of hash s] that(2) Board_init_pieces by auto
  then show ?thesis by (auto simp: list_all_iff)
qed

lemma pieces_new_state:
  assumes v: "valid_pieces ps" and m: "m \<in> set (legal_slides ps)"
  shows "pieces (board (new_state hash s (slide ps m))) = slide ps m"
  using successor_props[OF v m, of hash s] Board_init_pieces by auto

text \<open>
  C3. On a state whose board was built from a valid piece list, \<open>generate_successors\<close>
  returns, in order, one state for each legal slide of the specification and nothing
  else: the piece list of the k-th successor is the k-th legal slide applied to the
  input (one piece moved by one cell), the legal slides and the successors' piece lists
  are free of duplicates, every successor has the input's depth plus one, the input as
  its parent, and a board rebuilt from its piece list.
\<close>

theorem generate_successors_exact:
  assumes "valid_pieces ps" and "Board_init ps = Inr (board s)"
  shows "\<exists>succs. generate_successors hash s = Inr succs \<and>
           map (\<lambda>t. pieces (board t)) succs = map (slide ps) (legal_slides ps) \<and>
           distinct (legal_slides ps) \<and>
           distinct (map (\<lambda>t. pieces (board t)) succs) \<and>
           list_all (\<lambda>t. depth t = depth s + 1 \<and> parent t = Some s \<and>
                         Board_init (pieces (board t)) = Inr (board t)) succs"
proof -
  let ?succs = "map (\<lambda>m. new_state hash s (slide ps m)) (legal_slides ps)"
  have g: "generate_successors hash s = Inr ?succs"
    using generate_successors_moves[OF assms] .
  have p: "map (\<lambda>t. pieces (board t)) ?succs = map (slide ps) (legal_slides ps)"
    using pieces_new_state[OF assms(1)] by simp
  have d: "distinct (map (\<lambda>t. pieces (board t)) ?succs)"
    using p distinct_moves[of ps] by (simp only: moves_def)
  have l: "list_all (\<lambda>t. depth t = depth s + 1 \<and> parent t = Some s \<and>
                         Board_init (pieces (board t)) = Inr (board t)) ?succs"
    using list_all_new_state[OF assms(1), of s hash] by (simp add: list_all_iff)
  show ?thesis using g p d l distinct_legal_slides by blast
qed

theorem generate_successors_exact_witness:
  "valid_pieces example_pieces \<and>
   Board_init example_pieces = Inr (board (first_state (\<lambda>_. 0) example_board)) \<and>
   (\<exists>succs. generate_successors (\<lambda>_. 0) (first_state (\<lambda>_. 0) example_board) = Inr succs \<and>
      map (\<lambda>t. pieces (board t)) succs =
        [[mk_goal 1 1, mk_single 0 0], [mk_goal 2 0, mk_single 0 0], [mk_goal 1 0, mk_single 0 1]] \<and>
      list_all (\<lambda>t. depth t = 1) succs)"
proof -
  have b: "Board_init example_pieces = Inr (board (first_state (\<lambda>_. 0) example_board))"
    by code_simp
  have m: "map (slide example_pieces) (legal_slides example_pieces) =
      [[mk_goal 1 1, mk_single 0 0], [mk_goal 2 0, mk_single 0 0], [mk_goal 1 0, mk_single 0 1]]"
    by code_simp
  have d: "depth (first_state (\<lambda>_. 0) example_board) = 0"
    by (simp add: first_state_def State_init_def)
  show ?thesis
    using generate_successors_exact[OF example_valid b, of "\<lambda>_. 0"] example_valid b
    by (auto simp: m d list_all_iff)
qed

text \<open>
  C4. Every successor that \<open>generate_successors\<close> produces from a state whose board was
  built from a valid piece list has itself a valid piece list (well-formed pieces, all
  cells inside the 4x5 grid, no cell covered twice, exactly one goal piece), and its
  board is the one the constructor builds from that list.
\<close>

theorem successors_preserve_invariants:
  assumes "valid_pieces ps" and "Board_init ps = Inr (board s)"
  shows "\<exists>succs. generate_successors hash s = Inr succs \<and>
           list_all (\<lambda>t. valid_pieces (pieces (board t)) \<and>
                         Board_init (pieces (board t)) = Inr (board t)) succs"
proof -
  have "list_all (\<lambda>t. valid_pieces (pieces (board t)) \<and> Board_init (pieces (board t)) = Inr (board t))
     (map (\<lambda>m. new_state hash s (slide ps m)) (legal_slides ps))"
    using list_all_new_state[OF assms(1), of s hash] by (simp add: list_all_iff)
  then show ?thesis using generate_successors_moves[OF assms, of hash] by simp
qed

theorem successors_preserve_invariants_witness:
  "valid_pieces example_pieces \<and>
   Board_init example_pieces = Inr (board (first_state (\<lambda>_. 0) example_board)) \<and>
   (\<exists>succs. generate_successors (\<lambda>_. 0) (first_state (\<lambda>_. 0) example_board) = Inr succs \<and>
      length succs = 3 \<and>
      list_all (\<lambda>t. valid_pieces (pieces (board t)) \<and>
                    Board_init (pieces (board t)) = Inr (board t)) succs)"
proof -
  have b: "Board_init example_pieces = Inr (board (first_state (\<lambda>_. 0) example_board))"
    by code_simp
  have l: "length (projr (generate_successors (\<lambda>_. 0) (first_state (\<lambda>_. 0) example_board))) = 3"
    by code_simp
  show ?thesis
    using successors_preserve_invariants[OF example_valid b, of "\<lambda>_. 0"] example_valid b l
    by auto
qed

text \<open>
  C5 as stated fails: the constructor accepts a list with no goal piece, a list whose
  pieces overlap, a list with two goal pieces, and a piece left of the grid (the
  negative subscript counts from the end of the row).
\<close>

theorem Board_init_accepts_invalid:
  "\<not> valid_pieces [] \<and>
   map_sum id grid (Board_init []) = Inr [''....'', ''....'', ''....'', ''....'', ''....''] \<and>
   \<not> valid_pieces [mk_goal 1 0, mk_single 1 0] \<and>
   map_sum id grid (Board_init [mk_goal 1 0, mk_single 1 0]) =
     Inr [''.21.'', ''.11.'', ''....'', ''....'', ''....''] \<and>
   \<not> valid_pieces [mk_goal 0 0, mk_goal 2 0] \<and>
   map_sum id grid (Board_init [mk_goal 0 0, mk_goal 2 0]) =
     Inr [''1111'', ''1111'', ''....'', ''....'', ''....''] \<and>
   \<not> valid_pieces [mk_goal 1 0, mk_single (- 1) 0] \<and>
   map_sum id grid (Board_init [mk_goal 1 0, mk_single (- 1) 0]) =
     Inr [''.112'', ''.11.'', ''....'', ''....'', ''....'']"
  by code_simp

lemma reachable_self: "ps \<in> reachable ps"
  unfolding reachable_def by (rule UN_I[of 0]) simp_all

lemma reachable_step: "q \<in> reachable ps \<Longrightarrow> q' \<in> set (moves q) \<Longrightarrow> q' \<in> reachable ps"
proof -
  assume "q \<in> reachable ps" and m: "q' \<in> set (moves q)"
  then obtain n where "q \<in> set (reach_in n ps)" by (auto simp: reachable_def)
  then have "q' \<in> set (reach_in (Suc n) ps)" using m by auto
  then show ?thesis unfolding reachable_def by blast
qed

lemma reach_in_valid: "valid_pieces ps \<Longrightarrow> q \<in> set (reach_in n ps) \<Longrightarrow> valid_pieces q"
proof (induction n arbitrary: q)
  case 0
  then show ?case by simp
next
  case (Suc n)
  then obtain q' m where "q' \<in> set (reach_in n ps)" "m \<in> set (legal_slides q')" "q = slide q' m"
    by (auto simp: moves_def)
  then show ?case using Suc.IH[OF Suc.prems(1)] successor_props by blast
qed









lemma grid_of_Inr: "Board_init ps = Inr b \<Longrightarrow> grid_of ps = grid b"
  by (simp add: grid_of_def)

lemma manhattan_nonneg: "0 \<le> manhattan_distance b"
  by (simp add: manhattan_distance_def)

lemma root_ok:
  assumes "valid_pieces ps0" "Board_init ps0 = Inr b0"
  shows "state_ok hash ps0 (first_state hash b0)"
  using assms Board_init_pieces[OF assms(2)] manhattan_nonneg[of b0]
  by (simp add: state_ok_def first_state_def State_init_def id_of_def grid_of_Inr)

lemma succ_ok:
  assumes s: "state_ok hash ps0 s" and g: "generate_successors hash s = Inr succs"
    and t: "t \<in> set succs"
  shows "state_ok hash ps0 t \<and> depth t = depth s + 1 \<and> parent t = Some s \<and>
         pieces (board t) \<in> set (moves (pieces (board s)))"
proof -
  let ?ps = "pieces (board s)"
  have v: "valid_pieces ?ps" and b: "Board_init ?ps = Inr (board s)"
    and d: "0 \<le> depth s" and r: "?ps \<in> set (reach_in (nat (depth s)) ps0)"
    using s by (simp_all add: state_ok_def)
  from generate_successors_moves[OF v b, of hash] g t
  obtain m where m: "m \<in> set (legal_slides ?ps)" and tm: "t = new_state hash s (slide ?ps m)"
    by auto
  from successor_props[OF v m, of hash s] obtain b' where
    v': "valid_pieces (slide ?ps m)" and b': "Board_init (slide ?ps m) = Inr b'"
    and t': "t = State b' (depth s + 1 + manhattan_distance b') (depth s + 1) (Some s)
                (hash (str_grid (grid b')))"
    using tm by auto
  have p': "pieces b' = slide ?ps m" using Board_init_pieces[OF b'] .
  have mv: "slide ?ps m \<in> set (moves ?ps)" using m by (simp add: moves_def)
  have "nat (depth s + 1) = Suc (nat (depth s))" using d by simp
  then have "slide ?ps m \<in> set (reach_in (nat (depth s + 1)) ps0)" using r mv by auto
  then show ?thesis using v' b' t' p' d mv
    by (simp add: state_ok_def id_of_def grid_of_Inr)
qed

lemma derived_ok:
  assumes "valid_pieces ps0" "Board_init ps0 = Inr b0"
  shows "derived hash (first_state hash b0) t \<Longrightarrow> state_ok hash ps0 t"
proof (induction rule: derived.induct)
  case derived_root
  then show ?case using root_ok[OF assms] .
next
  case (derived_step s succs t)
  then show ?case using succ_ok by blast
qed























lemma set_cell_wrap:
  assumes "shape_ok g"
  shows "(in_wrap (x, y) \<longrightarrow> (\<exists>g'. set_cell g y x c = Inr g' \<and> shape_ok g')) \<and>
         (\<not> in_wrap (x, y) \<longrightarrow> set_cell g y x c = Inl IndexError)"
proof -
  have l: "length g = 5" using assms by (simp add: shape_ok_def)
  have r: "length (g ! i) = 4" if "i < 5" for i
    using assms that by (simp add: shape_ok_def list_all_length)
  show ?thesis
  proof (cases "py_index 5 y")
    case None
    then have "\<not> (- 5 \<le> y \<and> y < 5)" by (auto simp: py_index_def split: if_splits)
    then show ?thesis using None l by (auto simp: set_cell_def in_wrap_def)
  next
    case (Some i)
    then have i: "i < 5" and y: "- 5 \<le> y \<and> y < 5" by (auto simp: py_index_def split: if_splits)
    show ?thesis
    proof (cases "py_index 4 x")
      case None
      then have "\<not> (- 4 \<le> x \<and> x < 4)" by (auto simp: py_index_def split: if_splits)
      then show ?thesis using None Some l r[OF i] by (auto simp: set_cell_def in_wrap_def)
    next
      case (Some j)
      then have "- 4 \<le> x \<and> x < 4" by (auto simp: py_index_def split: if_splits)
      then show ?thesis using Some \<open>py_index 5 y = Some i\<close> l r[OF i] y shape_ok_upd[OF assms]
        by (auto simp: set_cell_def in_wrap_def)
    qed
  qed
qed

lemma set_cell_ok: "shape_ok g \<Longrightarrow> in_wrap (x, y) \<Longrightarrow> \<exists>g'. set_cell g y x c = Inr g' \<and> shape_ok g'"
  using set_cell_wrap by blast

lemma set_cell_fail: "shape_ok g \<Longrightarrow> \<not> in_wrap (x, y) \<Longrightarrow> set_cell g y x c = Inl IndexError"
  using set_cell_wrap by blast

lemma place_piece_wrap:
  assumes "shape_ok g"
  shows "(list_all in_wrap (cells p) \<longrightarrow>
            (\<exists>g' gpc'. place_piece p (g, gpc) = Inr (g', gpc') \<and> shape_ok g')) \<and>
         (\<not> list_all in_wrap (cells p) \<longrightarrow> place_piece p (g, gpc) = Inl IndexError)"
proof -
  have two: "(in_wrap (x1, y1) \<and> in_wrap (x2, y2) \<longrightarrow>
        (\<exists>g'. bind_err (set_cell g0 y1 x1 c1) (\<lambda>g1. bind_err (set_cell g1 y2 x2 c2) (\<lambda>g2. Inr (g2, r))) = Inr (g', r) \<and> shape_ok g')) \<and>
      (\<not> (in_wrap (x1, y1) \<and> in_wrap (x2, y2)) \<longrightarrow>
        bind_err (set_cell g0 y1 x1 c1) (\<lambda>g1. bind_err (set_cell g1 y2 x2 c2) (\<lambda>g2. Inr (g2, r))) = Inl IndexError)"
    if so: "shape_ok g0" for g0 x1 y1 x2 y2 c1 c2 and r :: "int list"
  proof (cases "in_wrap (x1, y1)")
    case False
    then show ?thesis using set_cell_fail[OF so False] by simp
  next
    case True
    then obtain g1 where g1: "set_cell g0 y1 x1 c1 = Inr g1" "shape_ok g1"
      using set_cell_ok[OF so] by blast
    show ?thesis using g1 True set_cell_wrap[OF g1(2), of x2 y2 c2] by auto
  qed
  show ?thesis
  proof (cases "is_goal p")
    case True
    let ?x = "coord_x p" and ?y = "coord_y p"
    show ?thesis
    proof (cases "in_wrap (?x, ?y)")
      case False
      then show ?thesis using True set_cell_fail[OF assms False]
        by (simp add: place_piece_def cells_def Let_def)
    next
      case t1: True
      then obtain g1 where g1: "set_cell g ?y ?x char_goal = Inr g1" "shape_ok g1"
        using set_cell_ok[OF assms] by blast
      show ?thesis
      proof (cases "in_wrap (?x + 1, ?y)")
        case False
        then show ?thesis using True t1 g1 set_cell_fail[OF g1(2) False]
          by (simp add: place_piece_def cells_def Let_def)
      next
        case t2: True
        then obtain g2 where g2: "set_cell g1 ?y (?x + 1) char_goal = Inr g2" "shape_ok g2"
          using set_cell_ok[OF g1(2)] by blast
        show ?thesis
          using True t1 t2 g1 g2
            two[OF g2(2), of ?x "?y + 1" "?x + 1" "?y + 1" char_goal char_goal
              "(gpc[0 := coord_x p])[1 := coord_y p]"]
          by (auto simp: place_piece_def cells_def Let_def)
      qed
    qed
  next
    case ng: False
    show ?thesis
    proof (cases "is_single p")
      case True
      then show ?thesis using ng set_cell_wrap[OF assms, of "coord_x p" "coord_y p" char_single]
        by (auto simp: place_piece_def cells_def Let_def)
    next
      case ns: False
      show ?thesis
        using assms ng ns two[OF assms, of "coord_x p" "coord_y p" "coord_x p + 1" "coord_y p" "CHR ''<''" "CHR ''>''" gpc]
          two[OF assms, of "coord_x p" "coord_y p" "coord_x p" "coord_y p + 1" "CHR ''^''" "CHR ''v''" gpc]
        by (auto simp: place_piece_def cells_def Let_def)
    qed
  qed
qed

lemma place_pieces_wrap:
  "shape_ok g \<Longrightarrow>
     (list_all in_wrap (concat (map cells ps)) \<longrightarrow> (\<exists>r. place_pieces ps (g, gpc) = Inr r)) \<and>
     (\<not> list_all in_wrap (concat (map cells ps)) \<longrightarrow> place_pieces ps (g, gpc) = Inl IndexError)"
proof (induction ps arbitrary: g gpc)
  case Nil
  then show ?case by simp
next
  case (Cons p ps)
  show ?case
  proof (cases "list_all in_wrap (cells p)")
    case False
    then show ?thesis using place_piece_wrap[OF Cons.prems, of p gpc] by simp
  next
    case True
    then obtain g' gpc' where "place_piece p (g, gpc) = Inr (g', gpc')" "shape_ok g'"
      using place_piece_wrap[OF Cons.prems, of p gpc] by blast
    then show ?thesis using True Cons.IH[of g' gpc'] by simp
  qed
qed

lemma Board_init_wrap:
  "(list_all in_wrap (concat (map cells ps)) \<longrightarrow> (\<exists>b. Board_init ps = Inr b)) \<and>
   (\<not> list_all in_wrap (concat (map cells ps)) \<longrightarrow> Board_init ps = Inl IndexError)"
  using place_pieces_wrap[OF shape_ok_empty, of ps "[0, 0]"]
  by (auto simp: Board_init_def construct_grid_def)

text \<open>
  C5, as the code has it. \<open>Board.__init__\<close> validates nothing and knows no
  \<open>InvalidConfiguration\<close>. It succeeds on every piece list whose cells are all inside the
  grid, so on every valid configuration, but also on lists with overlapping pieces, with
  no goal piece or with two. It fails at construction, with the \<open>IndexError\<close> of the
  subscript, whenever some piece has a cell whose column is outside -4..3 or whose row is
  outside -5..4.
\<close>

theorem Board_init_no_validation:
  "(valid_pieces ps \<longrightarrow> (\<exists>b. Board_init ps = Inr b \<and> pieces b = ps)) \<and>
   (in_bounds ps \<longrightarrow> (\<exists>b. Board_init ps = Inr b \<and> pieces b = ps)) \<and>
   (list_ex (\<lambda>c. \<not> in_wrap c) (concat (map cells ps)) \<longrightarrow> Board_init ps = Inl IndexError)"
proof -
  have 1: "\<exists>b. Board_init ps = Inr b \<and> pieces b = ps" if "in_bounds ps"
    using Board_init_in_bounds[OF that] by blast
  have 2: "Board_init ps = Inl IndexError" if "list_ex (\<lambda>c. \<not> in_wrap c) (concat (map cells ps))"
  proof -
    have "\<not> list_all in_wrap (concat (map cells ps))"
      using that by (auto simp: list_ex_iff list_all_iff)
    then show ?thesis using Board_init_wrap by blast
  qed
  show ?thesis using 1 2 valid_in_bounds by blast
qed

theorem Board_init_no_validation_witness:
  "valid_pieces example_pieces \<and> in_bounds example_pieces \<and>
   (\<exists>b. Board_init example_pieces = Inr b \<and> pieces b = example_pieces) \<and>
   list_ex (\<lambda>c. \<not> in_wrap c) (concat (map cells [mk_goal 1 0, mk_single 4 0])) \<and>
   Board_init [mk_goal 1 0, mk_single 4 0] = Inl IndexError \<and>
   list_ex (\<lambda>c. \<not> in_wrap c) (concat (map cells [mk_goal 1 4])) \<and>
   Board_init [mk_goal 1 4] = Inl IndexError"
proof -
  have e: "list_ex (\<lambda>c. \<not> in_wrap c) (concat (map cells [mk_goal 1 0, mk_single 4 0]))"
    by code_simp
  have f: "list_ex (\<lambda>c. \<not> in_wrap c) (concat (map cells [mk_goal 1 4]))"
    by code_simp
  have i: "in_bounds example_pieces" by code_simp
  show ?thesis
    using Board_init_no_validation[of example_pieces]
      Board_init_no_validation[of "[mk_goal 1 0, mk_single 4 0]"]
      Board_init_no_validation[of "[mk_goal 1 4]"] example_valid e f i
    by blast
qed

lemma bind_err_Inr_iff: "bind_err m k = Inr v \<longleftrightarrow> (\<exists>a. m = Inr a \<and> k a = Inr v)"
  by (cases m) simp_all

lemma place_piece_gpc:
  "place_piece p (g, gpc) = Inr (g', gpc') \<Longrightarrow>
     gpc' = (if is_goal p then (gpc[0 := coord_x p])[1 := coord_y p] else gpc)"
  by (auto simp: place_piece_def bind_err_Inr_iff Let_def split: if_splits)

lemma place_pieces_gpc:
  "place_pieces ps (g, gpc) = Inr (g', gpc') \<Longrightarrow> length gpc = 2 \<Longrightarrow>
     gpc' = (case last_goal ps of None \<Rightarrow> gpc | Some p \<Rightarrow> [coord_x p, coord_y p])"
proof (induction ps arbitrary: g gpc)
  case Nil
  then show ?case by simp
next
  case (Cons p ps)
  from Cons.prems(1) obtain g1 gpc1 where
    1: "place_piece p (g, gpc) = Inr (g1, gpc1)" and 2: "place_pieces ps (g1, gpc1) = Inr (g', gpc')"
    by (cases "place_piece p (g, gpc)") auto
  have g1: "gpc1 = (if is_goal p then (gpc[0 := coord_x p])[1 := coord_y p] else gpc)"
    using place_piece_gpc[OF 1] .
  then have l: "length gpc1 = 2" using Cons.prems(2) by simp
  show ?case using Cons.IH[OF 2 l] g1 Cons.prems(2)
    by (simp add: gpc_upd split: option.splits)
qed

lemma Board_init_gpc:
  "Board_init ps = Inr b \<Longrightarrow>
     goal_piece_coordinates b = (case last_goal ps of None \<Rightarrow> [0, 0] | Some p \<Rightarrow> [coord_x p, coord_y p])"
proof -
  assume a: "Board_init ps = Inr b"
  then obtain g gpc where r: "place_pieces ps (empty_grid 5 4, [0, 0]) = Inr (g, gpc)"
    and b: "goal_piece_coordinates b = gpc"
    by (cases "place_pieces ps (empty_grid 5 4, [0, 0])")
       (auto simp: Board_init_def construct_grid_def)
  show ?thesis using place_pieces_gpc[OF r] b by simp
qed

lemma manhattan_goal_dist: "Board_init ps = Inr b \<Longrightarrow> manhattan_distance b = goal_dist ps"
  using Board_init_gpc[of ps b]
  by (simp add: manhattan_distance_def goal_dist_def split: option.splits)

lemma last_goal_update:
  "i < length ps \<Longrightarrow> is_goal p' = is_goal (ps ! i) \<Longrightarrow>
     last_goal (ps[i := p']) = last_goal ps \<or>
     (last_goal ps = Some (ps ! i) \<and> last_goal (ps[i := p']) = Some p')"
proof (induction ps arbitrary: i)
  case Nil
  then show ?case by simp
next
  case (Cons p ps)
  show ?case
  proof (cases i)
    case 0
    then show ?thesis using Cons.prems by (auto split: option.splits)
  next
    case (Suc j)
    then show ?thesis using Cons.IH[of j] Cons.prems by (auto split: option.splits)
  qed
qed

lemma move_piece_coords:
  "\<bar>coord_x (move_piece p d) - a\<bar> + \<bar>coord_y (move_piece p d) - b\<bar> \<le>
     \<bar>coord_x p - a\<bar> + \<bar>coord_y p - b\<bar> + 1 \<and>
   \<bar>coord_x p - a\<bar> + \<bar>coord_y p - b\<bar> \<le>
     \<bar>coord_x (move_piece p d) - a\<bar> + \<bar>coord_y (move_piece p d) - b\<bar> + 1"
  by (cases d) (auto simp: move_piece_def)

text \<open>A slide changes the distance by at most one.\<close>

lemma goal_dist_slide:
  assumes "q' \<in> set (moves q)"
  shows "goal_dist q \<le> goal_dist q' + 1 \<and> goal_dist q' \<le> goal_dist q + 1"
proof -
  from assms obtain i d where i: "i < length q" and q': "q' = q[i := move_piece (q ! i) d]"
    using legal_slides_iff[of _ _ q] by (auto simp: moves_def slide_def)
  from last_goal_update[OF i, of "move_piece (q ! i) d"]
  consider "last_goal q' = last_goal q"
    | "last_goal q = Some (q ! i)" "last_goal q' = Some (move_piece (q ! i) d)"
    unfolding q' by auto
  then show ?thesis
  proof cases
    case 1
    then show ?thesis by (simp add: goal_dist_def)
  next
    case 2
    then show ?thesis using move_piece_coords[of "q ! i" d 1 3] by (simp add: goal_dist_def)
  qed
qed

lemma goal_dist_reach: "q \<in> set (reach_in n ps) \<Longrightarrow> goal_dist ps \<le> goal_dist q + int n"
proof (induction n arbitrary: q)
  case 0
  then show ?case by simp
next
  case (Suc n)
  then obtain q0 where "q0 \<in> set (reach_in n ps)" "q \<in> set (moves q0)" by auto
  then show ?case using Suc.IH[of q0] goal_dist_slide[of q q0] by simp
qed

lemma valid_last_goal:
  assumes "valid_pieces ps"
  shows "\<exists>p \<in> set ps. is_goal p \<and> last_goal ps = Some p \<and> (\<forall>p' \<in> set ps. is_goal p' \<longrightarrow> p' = p)"
proof -
  have l: "length (filter is_goal ps) = 1" using assms by (simp add: valid_pieces_def)
  then have "filter is_goal ps \<noteq> []" by auto
  then obtain p0 where "p0 \<in> set ps" "is_goal p0" by (auto simp: filter_empty_conv)
  then obtain p where p: "last_goal ps = Some p"
    using last_goal_None[of ps] by (cases "last_goal ps") auto
  then have "p \<in> set ps" "is_goal p" using last_goal_Some by blast+
  then show ?thesis using p goal_unique[OF l] by blast
qed

lemma valid_goal_config:
  assumes "valid_pieces ps"
  shows "\<exists>p. last_goal ps = Some p \<and> (goal_config ps \<longleftrightarrow> coord_x p = 1 \<and> coord_y p = 3)"
proof -
  from valid_last_goal[OF assms] obtain p where p: "p \<in> set ps" "is_goal p" "last_goal ps = Some p"
    and u: "\<And>p'. p' \<in> set ps \<Longrightarrow> is_goal p' \<Longrightarrow> p' = p" by blast
  have "coord_x p = 1 \<and> coord_y p = 3" if "goal_config ps"
  proof -
    from that obtain p' where "p' \<in> set ps" "is_goal p'" "coord_x p' = 1" "coord_y p' = 3"
      unfolding goal_config_def list_ex_iff by blast
    then show ?thesis using u[of p'] by simp
  qed
  moreover have "goal_config ps" if "coord_x p = 1 \<and> coord_y p = 3"
    unfolding goal_config_def list_ex_iff using that p(1,2) by blast
  ultimately show ?thesis using p(3) by blast
qed

lemma abs_sum_zero: "\<bar>a - 1\<bar> + \<bar>b - 3\<bar> = 0 \<longleftrightarrow> a = 1 \<and> b = (3::int)"
  by arith

lemma goal_config_dist: "valid_pieces ps \<Longrightarrow> goal_config ps \<longleftrightarrow> goal_dist ps = 0"
proof -
  assume v: "valid_pieces ps"
  from valid_goal_config[OF v] obtain p where p: "last_goal ps = Some p"
    "goal_config ps \<longleftrightarrow> coord_x p = 1 \<and> coord_y p = 3" by blast
  show ?thesis using p abs_sum_zero[of "coord_x p" "coord_y p"] by (simp add: goal_dist_def)
qed

lemma goal_test_config:
  assumes "valid_pieces ps" "Board_init ps = Inr (board s)"
  shows "goal_test s \<longleftrightarrow> goal_config ps"
proof -
  from valid_goal_config[OF assms(1)] obtain p where p: "last_goal ps = Some p"
    "goal_config ps \<longleftrightarrow> coord_x p = 1 \<and> coord_y p = 3" by blast
  show ?thesis using Board_init_gpc[OF assms(2)] p by (simp add: goal_test_def)
qed

text \<open>
  C2. On every board that the constructor returns, \<open>manhattan_distance\<close> is
  \<open>|gx - 1| + |gy - 3|\<close> for the corner \<open>(gx, gy)\<close> of the goal piece. Every state a
  search builds from the root state of a valid board has exactly one goal piece, and its
  distance is a lower bound for the number of slides of every sequence of legal slides
  from its configuration to a goal configuration.
\<close>

theorem manhattan_distance_admissible:
  "(Board_init ps = Inr b \<longrightarrow>
      (\<forall>p. last_goal ps = Some p \<longrightarrow> manhattan_distance b = \<bar>coord_x p - 1\<bar> + \<bar>coord_y p - 3\<bar>)) \<and>
   (valid_pieces ps0 \<and> Board_init ps0 = Inr b0 \<and> derived hash (first_state hash b0) t \<longrightarrow>
      (\<exists>p \<in> set (pieces (board t)). is_goal p \<and>
         (\<forall>p' \<in> set (pieces (board t)). is_goal p' \<longrightarrow> p' = p) \<and>
         manhattan_distance (board t) = \<bar>coord_x p - 1\<bar> + \<bar>coord_y p - 3\<bar>) \<and>
      (\<forall>n q. q \<in> set (reach_in n (pieces (board t))) \<and> goal_config q \<longrightarrow>
         manhattan_distance (board t) \<le> int n))"
proof -
  have 1: "manhattan_distance b = \<bar>coord_x p - 1\<bar> + \<bar>coord_y p - 3\<bar>"
    if "Board_init ps = Inr b" "last_goal ps = Some p" for p
    using manhattan_goal_dist[OF that(1)] that(2) by (simp add: goal_dist_def)
  have 2: "(\<exists>p \<in> set (pieces (board t)). is_goal p \<and>
         (\<forall>p' \<in> set (pieces (board t)). is_goal p' \<longrightarrow> p' = p) \<and>
         manhattan_distance (board t) = \<bar>coord_x p - 1\<bar> + \<bar>coord_y p - 3\<bar>) \<and>
      (\<forall>n q. q \<in> set (reach_in n (pieces (board t))) \<and> goal_config q \<longrightarrow>
         manhattan_distance (board t) \<le> int n)"
    if a: "valid_pieces ps0" "Board_init ps0 = Inr b0" "derived hash (first_state hash b0) t"
  proof -
    let ?ps = "pieces (board t)"
    have ok: "state_ok hash ps0 t" using derived_ok[OF a] .
    then have v: "valid_pieces ?ps" and b: "Board_init ?ps = Inr (board t)"
      by (simp_all add: state_ok_def)
    have m: "manhattan_distance (board t) = goal_dist ?ps" using manhattan_goal_dist[OF b] .
    from valid_last_goal[OF v] obtain p where p: "p \<in> set ?ps" "is_goal p" "last_goal ?ps = Some p"
      "\<forall>p' \<in> set ?ps. is_goal p' \<longrightarrow> p' = p" by blast
    have "manhattan_distance (board t) = \<bar>coord_x p - 1\<bar> + \<bar>coord_y p - 3\<bar>"
      using m p(3) by (simp add: goal_dist_def)
    moreover have "manhattan_distance (board t) \<le> int n"
      if "q \<in> set (reach_in n ?ps)" "goal_config q" for n q
    proof -
      have "valid_pieces q" using reach_in_valid[OF v that(1)] .
      then have "goal_dist q = 0" using that(2) goal_config_dist by simp
      then show ?thesis using goal_dist_reach[OF that(1)] m by simp
    qed
    ultimately show ?thesis using p by blast
  qed
  show ?thesis using 1 2 by blast
qed

theorem manhattan_distance_admissible_witness:
  "Board_init example_pieces = Inr example_board \<and> last_goal example_pieces = Some (mk_goal 1 0) \<and>
   manhattan_distance example_board = 3 \<and>
   valid_pieces example_pieces \<and>
   derived first_goal_pos (first_state first_goal_pos example_board)
     (first_state first_goal_pos example_board) \<and>
   [mk_goal 1 3, mk_single 0 0] \<in> set (reach_in 3 example_pieces) \<and>
   goal_config [mk_goal 1 3, mk_single 0 0] \<and>
   manhattan_distance (board (first_state first_goal_pos example_board)) \<le> 3"
proof -
  have l: "last_goal example_pieces = Some (mk_goal 1 0)" by code_simp
  have c: "coord_x (mk_goal 1 0) = 1 \<and> coord_y (mk_goal 1 0) = 0" by (simp add: mk_goal_def)
  have r: "[mk_goal 1 3, mk_single 0 0] \<in> set (reach_in 3 example_pieces)" by code_simp
  have g: "goal_config [mk_goal 1 3, mk_single 0 0]" by code_simp
  have p: "pieces (board (first_state first_goal_pos example_board)) = example_pieces"
    by (simp add: first_state_def State_init_def example_board_def)
  have bb: "board (first_state first_goal_pos example_board) = example_board"
    by (simp add: first_state_def State_init_def)
  show ?thesis
    using manhattan_distance_admissible[of example_pieces example_board example_pieces example_board
        first_goal_pos "first_state first_goal_pos example_board"]
      example_valid example_Board_init l c r g p bb derived_root[of first_goal_pos "first_state first_goal_pos example_board"]
    by (auto simp: p)
qed

(*LEMMAS-END*)

end
